theory Spec2Isabelle
  imports Main
begin

section \<open>Avoid Flood in The City: the embedding of \<open>Solution.avoidFlood\<close>\<close>

text \<open>
  The source is one Python method. Days are list indices (\<open>range(n)\<close>), so they are
  natural numbers; lake ids are the entries of \<open>rains\<close>, Python integers, so they are
  \<open>int\<close>. Every subscript, \<open>pop\<close> and \<open>del\<close> of the source can raise in Python; the
  model keeps each of them as a branch that returns the error as a value.
\<close>

subsection \<open>Python primitives used by the method\<close>

datatype py_error = IndexError | KeyError

text \<open>\<open>xs[i]\<close> for an index that is known to be non-negative.\<close>

definition list_get :: "'a list \<Rightarrow> nat \<Rightarrow> py_error + 'a" where
  "list_get xs i = (if i < length xs then Inr (xs ! i) else Inl IndexError)"

text \<open>\<open>xs[i] = v\<close>.\<close>

definition list_set :: "'a list \<Rightarrow> nat \<Rightarrow> 'a \<Rightarrow> py_error + 'a list" where
  "list_set xs i v = (if i < length xs then Inr (xs[i := v]) else Inl IndexError)"

text \<open>\<open>xs.pop(i)\<close>, of which the source only uses the effect on the list.\<close>

definition list_pop :: "'a list \<Rightarrow> nat \<Rightarrow> py_error + 'a list" where
  "list_pop xs i =
     (if i < length xs then Inr (take i xs @ drop (Suc i) xs) else Inl IndexError)"

text \<open>\<open>m[k]\<close> and \<open>del m[k]\<close> on a dictionary.\<close>

definition dict_get :: "('k \<rightharpoonup> 'v) \<Rightarrow> 'k \<Rightarrow> py_error + 'v" where
  "dict_get m k = (case m k of None \<Rightarrow> Inl KeyError | Some v \<Rightarrow> Inr v)"

definition dict_del :: "('k \<rightharpoonup> 'v) \<Rightarrow> 'k \<Rightarrow> py_error + ('k \<rightharpoonup> 'v)" where
  "dict_del m k = (case m k of None \<Rightarrow> Inl KeyError | Some v \<Rightarrow> Inr (m(k := None)))"

text \<open>
  \<open>bisect.bisect_right(a, x)\<close> of the standard library, with its defaults \<open>lo = 0\<close>
  and \<open>hi = len(a)\<close>:
  \<^verbatim>\<open>
  while lo < hi:
      mid = (lo + hi) // 2
      if x < a[mid]: hi = mid
      else: lo = mid + 1
  return lo
  \<close>
\<close>

function bisect_right_loop :: "nat list \<Rightarrow> nat \<Rightarrow> nat \<Rightarrow> nat \<Rightarrow> py_error + nat" where
  "bisect_right_loop a x lo hi =
     (if lo < hi then
        (case list_get a ((lo + hi) div 2) of
           Inl e \<Rightarrow> Inl e
         | Inr v \<Rightarrow>
             if x < v then bisect_right_loop a x lo ((lo + hi) div 2)
             else bisect_right_loop a x ((lo + hi) div 2 + 1) hi)
      else Inr lo)"
  by pat_completeness auto
termination
  by (relation "measure (\<lambda>(a, x, lo, hi). hi - lo)") auto

definition bisect_right :: "nat list \<Rightarrow> nat \<Rightarrow> py_error + nat" where
  "bisect_right a x = bisect_right_loop a x 0 (length a)"

subsection \<open>The working state and one day of the scan\<close>

record scan_state =
  result :: "int list"
  full_lakes :: "int \<rightharpoonup> nat"
  dry_days :: "nat list"

text \<open>
  What the body of the \<open>for\<close> loop does to the method: it raises, it executes
  \<open>return\<close>, or it falls through to the next iteration with the updated state.
\<close>

datatype outcome = Raise py_error | Return "int list" | Continue scan_state

text \<open>
  The block under \<open>if lake in full_lakes:\<close> (lines 20 to 35); the caller has still
  to execute \<open>full_lakes[lake] = i\<close>.
\<close>

definition rescue :: "int \<Rightarrow> scan_state \<Rightarrow> outcome" where
  "rescue lake st =
     (case dict_get (full_lakes st) lake of
        Inl e \<Rightarrow> Raise e
      | Inr last_full_day \<Rightarrow>
     (case bisect_right (dry_days st) last_full_day of
        Inl e \<Rightarrow> Raise e
      | Inr idx \<Rightarrow>
     if idx = length (dry_days st) then Return []
     else
     (case list_get (dry_days st) idx of
        Inl e \<Rightarrow> Raise e
      | Inr dry_day \<Rightarrow>
     (case list_set (result st) dry_day lake of
        Inl e \<Rightarrow> Raise e
      | Inr result' \<Rightarrow>
     (case list_pop (dry_days st) idx of
        Inl e \<Rightarrow> Raise e
      | Inr dry_days' \<Rightarrow>
     (case dict_del (full_lakes st) lake of
        Inl e \<Rightarrow> Raise e
      | Inr full_lakes' \<Rightarrow>
          Continue \<lparr>result = result', full_lakes = full_lakes', dry_days = dry_days'\<rparr>))))))"

text \<open>The body of the loop for day \<open>i\<close> (lines 12 to 38).\<close>

definition day_step :: "int list \<Rightarrow> nat \<Rightarrow> scan_state \<Rightarrow> outcome" where
  "day_step rains i st =
     (case list_get rains i of
        Inl e \<Rightarrow> Raise e
      | Inr lake \<Rightarrow>
          if lake = 0 then Continue (st\<lparr>dry_days := dry_days st @ [i]\<rparr>)
          else if full_lakes st lake \<noteq> None then
            (case rescue lake st of
               Continue st' \<Rightarrow> Continue (st'\<lparr>full_lakes := (full_lakes st')(lake \<mapsto> i)\<rparr>)
             | stop \<Rightarrow> stop)
          else Continue (st\<lparr>full_lakes := (full_lakes st)(lake \<mapsto> i)\<rparr>))"

text \<open>
  \<open>for i in range(n)\<close>, over the list of days that \<open>range\<close> yields; a \<open>return\<close>
  or an exception in the body ends the loop at once.
\<close>

fun scan :: "int list \<Rightarrow> nat list \<Rightarrow> scan_state \<Rightarrow> outcome" where
  "scan rains [] st = Continue st"
| "scan rains (i # days) st =
     (case day_step rains i st of
        Continue st' \<Rightarrow> scan rains days st'
      | stop \<Rightarrow> stop)"

text \<open>\<open>for day in dry_days: result[day] = 1\<close> (lines 41 and 42).\<close>

fun fill_remaining :: "nat list \<Rightarrow> int list \<Rightarrow> py_error + int list" where
  "fill_remaining [] res = Inr res"
| "fill_remaining (day # days) res =
     (case list_set res day 1 of
        Inl e \<Rightarrow> Inl e
      | Inr res' \<Rightarrow> fill_remaining days res')"

text \<open>The state built by lines 6 to 9.\<close>

definition init_state :: "int list \<Rightarrow> scan_state" where
  "init_state rains =
     \<lparr>result = replicate (length rains) (- 1), full_lakes = Map.empty, dry_days = []\<rparr>"

text \<open>
  The method. \<open>Inl\<close> is an exception that escapes it; \<open>Inr\<close> is the list it returns,
  the empty list of line 27 included.
\<close>

definition avoidFlood :: "int list \<Rightarrow> py_error + int list" where
  "avoidFlood rains =
     (case scan rains [0..<length rains] (init_state rains) of
        Raise e \<Rightarrow> Inl e
      | Return v \<Rightarrow> Inr v
      | Continue st \<Rightarrow> fill_remaining (dry_days st) (result st))"

text \<open>The state in which day \<open>i\<close> is processed, when the scan gets that far.\<close>

definition state_before :: "int list \<Rightarrow> nat \<Rightarrow> outcome" where
  "state_before rains i = scan rains [0..<i] (init_state rains)"

text \<open>Whether the method leaves through the \<open>return []\<close> of line 27.\<close>

definition infeasible_exit :: "int list \<Rightarrow> bool" where
  "infeasible_exit rains =
     (case scan rains [0..<length rains] (init_state rains) of
        Return v \<Rightarrow> True
      | _ \<Rightarrow> False)"

subsection \<open>Replaying a plan\<close>

text \<open>
  The re-simulation the specification describes, written from its words: the rain falls
  day by day; on a dry day the lake named by the plan is emptied; rain on a lake that is
  full is a flood. \<open>replay full days\<close> holds when the remaining days pass without a
  flood, starting from the set \<open>full\<close> of full lakes.
\<close>

fun replay :: "int set \<Rightarrow> (int \<times> int) list \<Rightarrow> bool" where
  "replay full [] = True"
| "replay full ((rain, action) # days) =
     (if rain = 0 then replay (full - {action}) days
      else if rain \<in> full then False
      else replay (insert rain full) days)"

definition never_floods :: "int list \<Rightarrow> int list \<Rightarrow> bool" where
  "never_floods rains plan = replay {} (zip rains plan)"

subsection \<open>The invariant of the scan\<close>

text \<open>
  What holds of the working state when day \<open>i\<close> is about to be processed: the plan has
  the length of the input; the pool is strictly ascending and holds dry days before \<open>i\<close>;
  \<open>full_lakes\<close> maps exactly the lakes that have received rain to the last day they did;
  rainy days, days to come and days in the pool hold \<open>-1\<close>; a dry day that left the pool
  lies between two consecutive rains on the lake it holds; and any two rains on one lake have a
  dry day between them that left the pool for that lake.
\<close>

definition scan_inv :: "int list \<Rightarrow> nat \<Rightarrow> scan_state \<Rightarrow> bool" where
  "scan_inv rains i st \<longleftrightarrow>
     length (result st) = length rains \<and>
     sorted_wrt (<) (dry_days st) \<and>
     (\<forall>p\<in>set (dry_days st). p < i \<and> rains ! p = 0) \<and>
     (\<forall>L d. full_lakes st L = Some d \<longrightarrow>
        L \<noteq> 0 \<and> d < i \<and> rains ! d = L \<and> (\<forall>k. d < k \<and> k < i \<longrightarrow> rains ! k \<noteq> L)) \<and>
     (\<forall>k<i. rains ! k \<noteq> 0 \<longrightarrow> full_lakes st (rains ! k) \<noteq> None) \<and>
     (\<forall>k<length rains. rains ! k \<noteq> 0 \<or> i \<le> k \<or> k \<in> set (dry_days st) \<longrightarrow> result st ! k = - 1) \<and>
     (\<forall>p<i. rains ! p = 0 \<and> p \<notin> set (dry_days st) \<longrightarrow>
        (\<exists>d j. d < p \<and> p < j \<and> j < i \<and> rains ! d = rains ! j \<and> rains ! j \<noteq> 0 \<and>
           (\<forall>k. d < k \<and> k < j \<longrightarrow> rains ! k \<noteq> rains ! j) \<and>
           result st ! p = rains ! j)) \<and>
     (\<forall>j<i. \<forall>d<j. rains ! d = rains ! j \<and> rains ! j \<noteq> 0 \<longrightarrow>
        (\<exists>p. d < p \<and> p < j \<and> rains ! p = 0 \<and> p \<notin> set (dry_days st) \<and>
           result st ! p = rains ! j))"

section \<open>Properties of the primitives\<close>

declare bisect_right_loop.simps [simp del]

lemmas avoidFlood_eval =
  avoidFlood_def init_state_def day_step_def rescue_def bisect_right_def
  bisect_right_loop.simps list_get_def list_set_def list_pop_def dict_get_def dict_del_def
  state_before_def infeasible_exit_def never_floods_def



lemma bisect_right_loop_spec:
  assumes "sorted_wrt (<) a" "lo \<le> hi" "hi \<le> length a"
    "\<forall>k<lo. a ! k \<le> x" "\<forall>k. hi \<le> k \<and> k < length a \<longrightarrow> x < a ! k"
  shows "\<exists>r. bisect_right_loop a x lo hi = Inr r \<and> r \<le> length a \<and>
           (\<forall>k<r. a ! k \<le> x) \<and> (\<forall>k. r \<le> k \<and> k < length a \<longrightarrow> x < a ! k)"
  using assms
proof (induction a x lo hi rule: bisect_right_loop.induct)
  case (1 a x lo hi)
  show ?case
  proof (cases "lo < hi")
    case False
    with "1.prems" show ?thesis by (subst bisect_right_loop.simps) simp
  next
    case True
    define mid where "mid = (lo + hi) div 2"
    have mid: "lo \<le> mid" "mid < hi" using True by (simp_all add: mid_def)
    then have ml: "mid < length a" using "1.prems"(3) by simp
    have get: "list_get a mid = Inr (a ! mid)" using ml by (simp add: list_get_def)
    have mono: "\<And>j k. j \<le> k \<Longrightarrow> k < length a \<Longrightarrow> a ! j \<le> a ! k"
      using "1.prems"(1) by (metis le_eq_less_or_eq sorted_wrt_nth_less)
    show ?thesis
    proof (cases "x < a ! mid")
      case lt: True
      have up: "\<forall>k. mid \<le> k \<and> k < length a \<longrightarrow> x < a ! k"
        using lt mono by (meson order.strict_trans2)
      have "\<exists>r. bisect_right_loop a x lo mid = Inr r \<and> r \<le> length a \<and>
           (\<forall>k<r. a ! k \<le> x) \<and> (\<forall>k. r \<le> k \<and> k < length a \<longrightarrow> x < a ! k)"
        using "1.IH"(1)[OF True get[unfolded mid_def] lt[unfolded mid_def]] "1.prems" mid ml up
        by (simp add: mid_def)
      then show ?thesis using True get lt
        by (simp add: bisect_right_loop.simps[of a x lo hi] mid_def)
    next
      case ge: False
      have low: "\<forall>k<mid + 1. a ! k \<le> x"
        using ge mono ml by (metis Suc_eq_plus1 less_Suc_eq_le not_less order.trans)
      have "\<exists>r. bisect_right_loop a x (mid + 1) hi = Inr r \<and> r \<le> length a \<and>
           (\<forall>k<r. a ! k \<le> x) \<and> (\<forall>k. r \<le> k \<and> k < length a \<longrightarrow> x < a ! k)"
        using "1.IH"(2)[OF True get[unfolded mid_def] ge[unfolded mid_def]] "1.prems" mid ml low
        by (simp add: mid_def)
      then show ?thesis using True get ge
        by (simp add: bisect_right_loop.simps[of a x lo hi] mid_def)
    qed
  qed
qed

lemma bisect_right_spec:
  assumes "sorted_wrt (<) a"
  shows "\<exists>r. bisect_right a x = Inr r \<and> r \<le> length a \<and>
           (\<forall>k<r. a ! k \<le> x) \<and> (\<forall>k. r \<le> k \<and> k < length a \<longrightarrow> x < a ! k)"
  unfolding bisect_right_def using bisect_right_loop_spec[OF assms, of 0 "length a" x] by simp


lemma sorted_pool_mono:
  "sorted_wrt (<) (a::nat list) \<Longrightarrow> j \<le> k \<Longrightarrow> k < length a \<Longrightarrow> a ! j \<le> a ! k"
  by (metis le_eq_less_or_eq sorted_wrt_nth_less)

lemma pop_sorted:
  "sorted_wrt (<) (a::nat list) \<Longrightarrow> sorted_wrt (<) (take idx a @ drop (Suc idx) a)"
proof -
  assume s: "sorted_wrt (<) a"
  have "sorted_wrt (<) (take idx a)" "\<forall>x\<in>set (take idx a). \<forall>y\<in>set (drop idx a). x < y"
    using s sorted_wrt_append[of "(<)" "take idx a" "drop idx a"]
    unfolding append_take_drop_id by blast+
  moreover have "sorted_wrt (<) (drop (Suc idx) a)" using s by (rule sorted_wrt_drop)
  moreover have "set (drop (Suc idx) a) \<subseteq> set (drop idx a)"
    by (rule set_drop_subset_set_drop) simp
  ultimately show ?thesis by (auto simp: sorted_wrt_append)
qed

lemma pop_set:
  assumes "distinct a" "idx < length a"
  shows "set (take idx a @ drop (Suc idx) a) = set a - {a ! idx}"
proof -
  have "a = take idx a @ a ! idx # drop (Suc idx) a" using assms(2) by (rule id_take_nth_drop)
  then have "distinct (take idx a @ a ! idx # drop (Suc idx) a)"
    "set a = set (take idx a @ a ! idx # drop (Suc idx) a)" using assms(1) by simp_all
  then show ?thesis by auto
qed

lemma rescue_infeasible:
  assumes "sorted_wrt (<) (dry_days st)" "full_lakes st lake = Some d"
    "\<forall>p\<in>set (dry_days st). p \<le> d"
  shows "rescue lake st = Return []"
proof -
  obtain idx where idx: "bisect_right (dry_days st) d = Inr idx" "idx \<le> length (dry_days st)"
    "\<forall>k. idx \<le> k \<and> k < length (dry_days st) \<longrightarrow> d < dry_days st ! k"
    using bisect_right_spec[OF assms(1), of d] by blast
  have "idx = length (dry_days st)"
  proof (rule ccontr)
    assume "idx \<noteq> length (dry_days st)"
    then have "idx < length (dry_days st)" using idx(2) by simp
    then have "d < dry_days st ! idx" "dry_days st ! idx \<in> set (dry_days st)" using idx(3) by simp_all
    then show False using assms(3) by fastforce
  qed
  then show ?thesis using idx(1) assms(2) by (simp add: rescue_def dict_get_def)
qed

lemma rescue_feasible:
  assumes "sorted_wrt (<) (dry_days st)" "full_lakes st lake = Some d"
    "\<forall>p\<in>set (dry_days st). p < length (result st)"
    "\<not> (\<forall>p\<in>set (dry_days st). p \<le> d)"
  shows "\<exists>p pool'. p \<in> set (dry_days st) \<and> d < p \<and> (\<forall>q\<in>set (dry_days st). d < q \<longrightarrow> p \<le> q) \<and>
           sorted_wrt (<) pool' \<and> set pool' = set (dry_days st) - {p} \<and>
           rescue lake st = Continue \<lparr>result = (result st)[p := lake],
             full_lakes = (full_lakes st)(lake := None), dry_days = pool'\<rparr>"
proof -
  let ?a = "dry_days st"
  obtain idx where idx: "bisect_right ?a d = Inr idx" "idx \<le> length ?a"
    "\<forall>k<idx. ?a ! k \<le> d" "\<forall>k. idx \<le> k \<and> k < length ?a \<longrightarrow> d < ?a ! k"
    using bisect_right_spec[OF assms(1), of d] by blast
  have ne: "idx \<noteq> length ?a"
  proof
    assume "idx = length ?a"
    then have "\<forall>p\<in>set ?a. p \<le> d" using idx(3) by (auto simp: in_set_conv_nth)
    then show False using assms(4) by simp
  qed
  then have lt: "idx < length ?a" using idx(2) by simp
  let ?p = "?a ! idx"
  have pin: "?p \<in> set ?a" using lt by simp
  have dp: "d < ?p" using idx(4) lt by simp
  have least: "\<forall>q\<in>set ?a. d < q \<longrightarrow> ?p \<le> q"
  proof (intro ballI impI)
    fix q assume "q \<in> set ?a" "d < q"
    then obtain k where k: "k < length ?a" "q = ?a ! k" by (auto simp: in_set_conv_nth)
    with \<open>d < q\<close> idx(3) have "idx \<le> k" by (meson not_less)
    then show "?p \<le> q" using k sorted_pool_mono[OF assms(1)] by simp
  qed
  have dist: "distinct ?a" using assms(1) by (simp add: strict_sorted_iff)
  have "rescue lake st = Continue \<lparr>result = (result st)[?p := lake],
             full_lakes = (full_lakes st)(lake := None), dry_days = take idx ?a @ drop (Suc idx) ?a\<rparr>"
    using idx(1) ne lt assms(2) assms(3) pin
    by (simp add: rescue_def dict_get_def dict_del_def list_get_def list_set_def list_pop_def)
  then show ?thesis using pin dp least pop_sorted[OF assms(1), of idx] pop_set[OF dist lt] by blast
qed

section \<open>One day of the scan\<close>

lemma day_step_cases:
  assumes "length (result st) = length rains" "sorted_wrt (<) (dry_days st)"
    "\<forall>p\<in>set (dry_days st). p < length rains" "i < length rains"
  obtains (dry) "rains ! i = 0"
      "day_step rains i st = Continue (st\<lparr>dry_days := dry_days st @ [i]\<rparr>)"
  | (first) "rains ! i \<noteq> 0" "full_lakes st (rains ! i) = None"
      "day_step rains i st = Continue (st\<lparr>full_lakes := (full_lakes st)(rains ! i \<mapsto> i)\<rparr>)"
  | (stop) d where "rains ! i \<noteq> 0" "full_lakes st (rains ! i) = Some d"
      "\<forall>p\<in>set (dry_days st). p \<le> d" "day_step rains i st = Return []"
  | (refill) d p pool' where "rains ! i \<noteq> 0" "full_lakes st (rains ! i) = Some d"
      "p \<in> set (dry_days st)" "d < p" "\<forall>q\<in>set (dry_days st). d < q \<longrightarrow> p \<le> q"
      "sorted_wrt (<) pool'" "set pool' = set (dry_days st) - {p}"
      "day_step rains i st = Continue \<lparr>result = (result st)[p := rains ! i],
         full_lakes = (full_lakes st)(rains ! i \<mapsto> i), dry_days = pool'\<rparr>"
proof (cases "rains ! i = 0")
  case True
  then show ?thesis using assms(4) dry by (simp add: day_step_def list_get_def)
next
  case nz: False
  show ?thesis
  proof (cases "full_lakes st (rains ! i)")
    case None
    then show ?thesis using nz assms(4) first by (simp add: day_step_def list_get_def)
  next
    case (Some d)
    show ?thesis
    proof (cases "\<forall>p\<in>set (dry_days st). p \<le> d")
      case True
      have "rescue (rains ! i) st = Return []" using assms(2) Some True by (rule rescue_infeasible)
      then have "day_step rains i st = Return []"
        using nz Some assms(4) by (simp add: day_step_def list_get_def)
      then show ?thesis using stop nz Some True by blast
    next
      case False
      have b: "\<forall>p\<in>set (dry_days st). p < length (result st)" using assms(1,3) by simp
      obtain p pool' where r: "p \<in> set (dry_days st)" "d < p"
        "\<forall>q\<in>set (dry_days st). d < q \<longrightarrow> p \<le> q" "sorted_wrt (<) pool'"
        "set pool' = set (dry_days st) - {p}"
        "rescue (rains ! i) st = Continue \<lparr>result = (result st)[p := rains ! i],
             full_lakes = (full_lakes st)(rains ! i := None), dry_days = pool'\<rparr>"
        using rescue_feasible[OF assms(2) Some b False] by blast
      have "day_step rains i st = Continue \<lparr>result = (result st)[p := rains ! i],
         full_lakes = (full_lakes st)(rains ! i \<mapsto> i), dry_days = pool'\<rparr>"
        using nz Some assms(4) r(6) by (simp add: day_step_def list_get_def)
      then show ?thesis using refill nz Some r by blast
    qed
  qed
qed

lemma scan_inv_init: "scan_inv rains 0 (init_state rains)"
  by (simp add: scan_inv_def init_state_def)

lemma scan_inv_basic:
  assumes "scan_inv rains i st" "i \<le> length rains"
  shows "length (result st) = length rains" "sorted_wrt (<) (dry_days st)"
    "\<forall>p\<in>set (dry_days st). p < length rains"
  using assms by (auto simp: scan_inv_def)

lemma scan_invD:
  assumes "scan_inv rains i st"
  shows "length (result st) = length rains"
    and "sorted_wrt (<) (dry_days st)"
    and "\<forall>p\<in>set (dry_days st). p < i \<and> rains ! p = 0"
    and "\<forall>L d. full_lakes st L = Some d \<longrightarrow>
        L \<noteq> 0 \<and> d < i \<and> rains ! d = L \<and> (\<forall>k. d < k \<and> k < i \<longrightarrow> rains ! k \<noteq> L)"
    and "\<forall>k<i. rains ! k \<noteq> 0 \<longrightarrow> full_lakes st (rains ! k) \<noteq> None"
    and "\<forall>k<length rains. rains ! k \<noteq> 0 \<or> i \<le> k \<or> k \<in> set (dry_days st) \<longrightarrow> result st ! k = - 1"
    and "\<forall>p<i. rains ! p = 0 \<and> p \<notin> set (dry_days st) \<longrightarrow>
        (\<exists>d j. d < p \<and> p < j \<and> j < i \<and> rains ! d = rains ! j \<and> rains ! j \<noteq> 0 \<and>
           (\<forall>k. d < k \<and> k < j \<longrightarrow> rains ! k \<noteq> rains ! j) \<and>
           result st ! p = rains ! j)"
    and "\<forall>j<i. \<forall>d<j. rains ! d = rains ! j \<and> rains ! j \<noteq> 0 \<longrightarrow>
        (\<exists>p. d < p \<and> p < j \<and> rains ! p = 0 \<and> p \<notin> set (dry_days st) \<and>
           result st ! p = rains ! j)"
  using assms unfolding scan_inv_def by - (elim conjE, assumption)+

lemma scan_invI:
  assumes "length (result st) = length rains"
    and "sorted_wrt (<) (dry_days st)"
    and "\<forall>p\<in>set (dry_days st). p < i \<and> rains ! p = 0"
    and "\<forall>L d. full_lakes st L = Some d \<longrightarrow>
        L \<noteq> 0 \<and> d < i \<and> rains ! d = L \<and> (\<forall>k. d < k \<and> k < i \<longrightarrow> rains ! k \<noteq> L)"
    and "\<forall>k<i. rains ! k \<noteq> 0 \<longrightarrow> full_lakes st (rains ! k) \<noteq> None"
    and "\<forall>k<length rains. rains ! k \<noteq> 0 \<or> i \<le> k \<or> k \<in> set (dry_days st) \<longrightarrow> result st ! k = - 1"
    and "\<forall>p<i. rains ! p = 0 \<and> p \<notin> set (dry_days st) \<longrightarrow>
        (\<exists>d j. d < p \<and> p < j \<and> j < i \<and> rains ! d = rains ! j \<and> rains ! j \<noteq> 0 \<and>
           (\<forall>k. d < k \<and> k < j \<longrightarrow> rains ! k \<noteq> rains ! j) \<and>
           result st ! p = rains ! j)"
    and "\<forall>j<i. \<forall>d<j. rains ! d = rains ! j \<and> rains ! j \<noteq> 0 \<longrightarrow>
        (\<exists>p. d < p \<and> p < j \<and> rains ! p = 0 \<and> p \<notin> set (dry_days st) \<and>
           result st ! p = rains ! j)"
  shows "scan_inv rains i st"
  unfolding scan_inv_def using assms by (intro conjI)

lemma scan_inv_dry:
  assumes inv: "scan_inv rains i st" and i: "i < length rains" and z: "rains ! i = 0"
  shows "scan_inv rains (Suc i) (st\<lparr>dry_days := dry_days st @ [i]\<rparr>)"
proof (rule scan_invI)
  note L = scan_invD(1)[OF inv] and S = scan_invD(2)[OF inv] and P = scan_invD(3)[OF inv]
    and F = scan_invD(4)[OF inv] and N = scan_invD(5)[OF inv] and R = scan_invD(6)[OF inv]
    and U = scan_invD(7)[OF inv] and W = scan_invD(8)[OF inv]
  let ?st = "st\<lparr>dry_days := dry_days st @ [i]\<rparr>"
  show "length (result ?st) = length rains" using L by simp
  show "sorted_wrt (<) (dry_days ?st)" using S P by (simp add: sorted_wrt_append)
  show "\<forall>p\<in>set (dry_days ?st). p < Suc i \<and> rains ! p = 0" using P z by auto
  show "\<forall>L d. full_lakes ?st L = Some d \<longrightarrow>
        L \<noteq> 0 \<and> d < Suc i \<and> rains ! d = L \<and> (\<forall>k. d < k \<and> k < Suc i \<longrightarrow> rains ! k \<noteq> L)"
  proof (intro allI impI)
    fix L d assume "full_lakes ?st L = Some d"
    then have "full_lakes st L = Some d" by simp
    with F have f: "L \<noteq> 0" "d < i" "rains ! d = L" "\<forall>k. d < k \<and> k < i \<longrightarrow> rains ! k \<noteq> L"
      by blast+
    have "\<forall>k. d < k \<and> k < Suc i \<longrightarrow> rains ! k \<noteq> L"
    proof (intro allI impI)
      fix k assume "d < k \<and> k < Suc i"
      then show "rains ! k \<noteq> L" using f(1,4) z by (cases "k = i") auto
    qed
    then show "L \<noteq> 0 \<and> d < Suc i \<and> rains ! d = L \<and> (\<forall>k. d < k \<and> k < Suc i \<longrightarrow> rains ! k \<noteq> L)"
      using f by simp
  qed
  show "\<forall>k<Suc i. rains ! k \<noteq> 0 \<longrightarrow> full_lakes ?st (rains ! k) \<noteq> None"
  proof (intro allI impI)
    fix k assume "k < Suc i" "rains ! k \<noteq> 0"
    then have "k < i" using z by (cases "k = i") auto
    then show "full_lakes ?st (rains ! k) \<noteq> None" using N \<open>rains ! k \<noteq> 0\<close> by simp
  qed
  show "\<forall>k<length rains. rains ! k \<noteq> 0 \<or> Suc i \<le> k \<or> k \<in> set (dry_days ?st) \<longrightarrow> result ?st ! k = - 1"
  proof (intro allI impI)
    fix k assume "k < length rains" "rains ! k \<noteq> 0 \<or> Suc i \<le> k \<or> k \<in> set (dry_days ?st)"
    then have "rains ! k \<noteq> 0 \<or> i \<le> k \<or> k \<in> set (dry_days st)" by auto
    then show "result ?st ! k = - 1" using R \<open>k < length rains\<close> by simp
  qed
  show "\<forall>p<Suc i. rains ! p = 0 \<and> p \<notin> set (dry_days ?st) \<longrightarrow>
        (\<exists>d j. d < p \<and> p < j \<and> j < Suc i \<and> rains ! d = rains ! j \<and> rains ! j \<noteq> 0 \<and>
           (\<forall>k. d < k \<and> k < j \<longrightarrow> rains ! k \<noteq> rains ! j) \<and>
           result ?st ! p = rains ! j)"
  proof (intro allI impI)
    fix p assume "p < Suc i" "rains ! p = 0 \<and> p \<notin> set (dry_days ?st)"
    then have "p < i" "rains ! p = 0 \<and> p \<notin> set (dry_days st)" by auto
    with U obtain d j where "d < p \<and> p < j \<and> j < i \<and> rains ! d = rains ! j \<and> rains ! j \<noteq> 0 \<and>
           (\<forall>k. d < k \<and> k < j \<longrightarrow> rains ! k \<noteq> rains ! j) \<and>
           result st ! p = rains ! j" by blast
    then have "d < p \<and> p < j \<and> j < Suc i \<and> rains ! d = rains ! j \<and> rains ! j \<noteq> 0 \<and>
           (\<forall>k. d < k \<and> k < j \<longrightarrow> rains ! k \<noteq> rains ! j) \<and>
           result ?st ! p = rains ! j" by simp
    then show "\<exists>d j. d < p \<and> p < j \<and> j < Suc i \<and> rains ! d = rains ! j \<and> rains ! j \<noteq> 0 \<and>
           (\<forall>k. d < k \<and> k < j \<longrightarrow> rains ! k \<noteq> rains ! j) \<and>
           result ?st ! p = rains ! j" by blast
  qed
  show "\<forall>j<Suc i. \<forall>d<j. rains ! d = rains ! j \<and> rains ! j \<noteq> 0 \<longrightarrow>
        (\<exists>p. d < p \<and> p < j \<and> rains ! p = 0 \<and> p \<notin> set (dry_days ?st) \<and>
           result ?st ! p = rains ! j)"
  proof (intro allI impI)
    fix j d assume a: "j < Suc i" "d < j" "rains ! d = rains ! j \<and> rains ! j \<noteq> 0"
    then have "j < i" using z by (cases "j = i") auto
    with W a obtain p where "d < p \<and> p < j \<and> rains ! p = 0 \<and> p \<notin> set (dry_days st) \<and>
           result st ! p = rains ! j" by blast
    then have "d < p \<and> p < j \<and> rains ! p = 0 \<and> p \<notin> set (dry_days ?st) \<and>
           result ?st ! p = rains ! j" using \<open>j < i\<close> by simp
    then show "\<exists>p. d < p \<and> p < j \<and> rains ! p = 0 \<and> p \<notin> set (dry_days ?st) \<and>
           result ?st ! p = rains ! j" by blast
  qed
qed

lemma full_lakes_rain:
  assumes F: "\<forall>L d. full_lakes st L = Some d \<longrightarrow>
        L \<noteq> 0 \<and> d < i \<and> rains ! d = L \<and> (\<forall>k. d < k \<and> k < i \<longrightarrow> rains ! k \<noteq> L)"
    and nz: "rains ! i \<noteq> 0"
    and upd: "full_lakes st' = (full_lakes st)(rains ! i \<mapsto> i)"
  shows "\<forall>L d. full_lakes st' L = Some d \<longrightarrow>
        L \<noteq> 0 \<and> d < Suc i \<and> rains ! d = L \<and> (\<forall>k. d < k \<and> k < Suc i \<longrightarrow> rains ! k \<noteq> L)"
proof (intro allI impI)
  fix L d assume "full_lakes st' L = Some d"
  then have a: "((full_lakes st)(rains ! i \<mapsto> i)) L = Some d" using upd by simp
  show "L \<noteq> 0 \<and> d < Suc i \<and> rains ! d = L \<and> (\<forall>k. d < k \<and> k < Suc i \<longrightarrow> rains ! k \<noteq> L)"
  proof (cases "L = rains ! i")
    case True
    then have "d = i" using a by simp
    then show ?thesis using True nz by simp
  next
    case False
    then have "full_lakes st L = Some d" using a by simp
    with F have f: "L \<noteq> 0" "d < i" "rains ! d = L" "\<forall>k. d < k \<and> k < i \<longrightarrow> rains ! k \<noteq> L"
      by blast+
    have "\<forall>k. d < k \<and> k < Suc i \<longrightarrow> rains ! k \<noteq> L"
    proof (intro allI impI)
      fix k assume "d < k \<and> k < Suc i"
      then show "rains ! k \<noteq> L" using f(4) False by (cases "k = i") auto
    qed
    then show ?thesis using f by simp
  qed
qed

lemma full_lakes_known:
  assumes N: "\<forall>k<i. rains ! k \<noteq> 0 \<longrightarrow> full_lakes st (rains ! k) \<noteq> None"
    and upd: "full_lakes st' = (full_lakes st)(rains ! i \<mapsto> i)"
  shows "\<forall>k<Suc i. rains ! k \<noteq> 0 \<longrightarrow> full_lakes st' (rains ! k) \<noteq> None"
proof (intro allI impI)
  fix k assume "k < Suc i" "rains ! k \<noteq> 0"
  then show "full_lakes st' (rains ! k) \<noteq> None"
    using N upd by (cases "k = i") auto
qed

lemma scan_inv_first:
  assumes inv: "scan_inv rains i st" and i: "i < length rains" and nz: "rains ! i \<noteq> 0"
    and none: "full_lakes st (rains ! i) = None"
  shows "scan_inv rains (Suc i) (st\<lparr>full_lakes := (full_lakes st)(rains ! i \<mapsto> i)\<rparr>)"
proof (rule scan_invI)
  note L = scan_invD(1)[OF inv] and S = scan_invD(2)[OF inv] and P = scan_invD(3)[OF inv]
    and F = scan_invD(4)[OF inv] and N = scan_invD(5)[OF inv] and R = scan_invD(6)[OF inv]
    and U = scan_invD(7)[OF inv] and W = scan_invD(8)[OF inv]
  let ?st = "st\<lparr>full_lakes := (full_lakes st)(rains ! i \<mapsto> i)\<rparr>"
  show "length (result ?st) = length rains" using L by simp
  show "sorted_wrt (<) (dry_days ?st)" using S by simp
  show "\<forall>p\<in>set (dry_days ?st). p < Suc i \<and> rains ! p = 0" using P by auto
  show "\<forall>L d. full_lakes ?st L = Some d \<longrightarrow>
        L \<noteq> 0 \<and> d < Suc i \<and> rains ! d = L \<and> (\<forall>k. d < k \<and> k < Suc i \<longrightarrow> rains ! k \<noteq> L)"
    by (rule full_lakes_rain[OF F nz]) simp
  show "\<forall>k<Suc i. rains ! k \<noteq> 0 \<longrightarrow> full_lakes ?st (rains ! k) \<noteq> None"
    by (rule full_lakes_known[OF N]) simp
  show "\<forall>k<length rains. rains ! k \<noteq> 0 \<or> Suc i \<le> k \<or> k \<in> set (dry_days ?st) \<longrightarrow> result ?st ! k = - 1"
  proof (intro allI impI)
    fix k assume "k < length rains" "rains ! k \<noteq> 0 \<or> Suc i \<le> k \<or> k \<in> set (dry_days ?st)"
    then have "rains ! k \<noteq> 0 \<or> i \<le> k \<or> k \<in> set (dry_days st)" by auto
    then show "result ?st ! k = - 1" using R \<open>k < length rains\<close> by simp
  qed
  show "\<forall>p<Suc i. rains ! p = 0 \<and> p \<notin> set (dry_days ?st) \<longrightarrow>
        (\<exists>d j. d < p \<and> p < j \<and> j < Suc i \<and> rains ! d = rains ! j \<and> rains ! j \<noteq> 0 \<and>
           (\<forall>k. d < k \<and> k < j \<longrightarrow> rains ! k \<noteq> rains ! j) \<and>
           result ?st ! p = rains ! j)"
  proof (intro allI impI)
    fix p assume a: "p < Suc i" "rains ! p = 0 \<and> p \<notin> set (dry_days ?st)"
    then have "p < i" using nz by (cases "p = i") auto
    moreover have "rains ! p = 0 \<and> p \<notin> set (dry_days st)" using a by simp
    ultimately obtain d j where "d < p \<and> p < j \<and> j < i \<and> rains ! d = rains ! j \<and> rains ! j \<noteq> 0 \<and>
           (\<forall>k. d < k \<and> k < j \<longrightarrow> rains ! k \<noteq> rains ! j) \<and>
           result st ! p = rains ! j" using U by blast
    then have "d < p \<and> p < j \<and> j < Suc i \<and> rains ! d = rains ! j \<and> rains ! j \<noteq> 0 \<and>
           (\<forall>k. d < k \<and> k < j \<longrightarrow> rains ! k \<noteq> rains ! j) \<and>
           result ?st ! p = rains ! j" by simp
    then show "\<exists>d j. d < p \<and> p < j \<and> j < Suc i \<and> rains ! d = rains ! j \<and> rains ! j \<noteq> 0 \<and>
           (\<forall>k. d < k \<and> k < j \<longrightarrow> rains ! k \<noteq> rains ! j) \<and>
           result ?st ! p = rains ! j" by blast
  qed
  show "\<forall>j<Suc i. \<forall>d<j. rains ! d = rains ! j \<and> rains ! j \<noteq> 0 \<longrightarrow>
        (\<exists>p. d < p \<and> p < j \<and> rains ! p = 0 \<and> p \<notin> set (dry_days ?st) \<and>
           result ?st ! p = rains ! j)"
  proof (intro allI impI)
    fix j d assume a: "j < Suc i" "d < j" "rains ! d = rains ! j \<and> rains ! j \<noteq> 0"
    have "j \<noteq> i"
    proof
      assume "j = i"
      then have "full_lakes st (rains ! d) \<noteq> None" using N a by auto
      then show False using a none \<open>j = i\<close> by simp
    qed
    then have "j < i" using a(1) by simp
    with W a obtain p where "d < p \<and> p < j \<and> rains ! p = 0 \<and> p \<notin> set (dry_days st) \<and>
           result st ! p = rains ! j" by blast
    then have "d < p \<and> p < j \<and> rains ! p = 0 \<and> p \<notin> set (dry_days ?st) \<and>
           result ?st ! p = rains ! j" by simp
    then show "\<exists>p. d < p \<and> p < j \<and> rains ! p = 0 \<and> p \<notin> set (dry_days ?st) \<and>
           result ?st ! p = rains ! j" by blast
  qed
qed

lemma scan_inv_refill:
  assumes inv: "scan_inv rains i st" and i: "i < length rains" and nz: "rains ! i \<noteq> 0"
    and some: "full_lakes st (rains ! i) = Some d0"
    and p0: "p0 \<in> set (dry_days st)" "d0 < p0"
    and pool': "sorted_wrt (<) pool'" "set pool' = set (dry_days st) - {p0}"
  shows "scan_inv rains (Suc i) \<lparr>result = (result st)[p0 := rains ! i],
         full_lakes = (full_lakes st)(rains ! i \<mapsto> i), dry_days = pool'\<rparr>"
proof (rule scan_invI)
  note L = scan_invD(1)[OF inv] and S = scan_invD(2)[OF inv] and P = scan_invD(3)[OF inv]
    and F = scan_invD(4)[OF inv] and N = scan_invD(5)[OF inv] and R = scan_invD(6)[OF inv]
    and U = scan_invD(7)[OF inv] and W = scan_invD(8)[OF inv]
  let ?st = "\<lparr>result = (result st)[p0 := rains ! i],
         full_lakes = (full_lakes st)(rains ! i \<mapsto> i), dry_days = pool'\<rparr>"
  have p0i: "p0 < i" and p0z: "rains ! p0 = 0" using P p0(1) by auto
  have p0n: "p0 < length (result st)" using p0i i L by simp
  have d0: "d0 < i" "rains ! d0 = rains ! i" "\<forall>k. d0 < k \<and> k < i \<longrightarrow> rains ! k \<noteq> rains ! i"
    using F some by blast+
  have other: "\<And>k. k \<noteq> p0 \<Longrightarrow> result ?st ! k = result st ! k" by simp
  have at_p0: "result ?st ! p0 = rains ! i" using p0n by simp
  show "length (result ?st) = length rains" using L by simp
  show "sorted_wrt (<) (dry_days ?st)" using pool'(1) by simp
  show "\<forall>p\<in>set (dry_days ?st). p < Suc i \<and> rains ! p = 0" using P pool'(2) by auto
  show "\<forall>L d. full_lakes ?st L = Some d \<longrightarrow>
        L \<noteq> 0 \<and> d < Suc i \<and> rains ! d = L \<and> (\<forall>k. d < k \<and> k < Suc i \<longrightarrow> rains ! k \<noteq> L)"
    by (rule full_lakes_rain[OF F nz]) simp
  show "\<forall>k<Suc i. rains ! k \<noteq> 0 \<longrightarrow> full_lakes ?st (rains ! k) \<noteq> None"
    by (rule full_lakes_known[OF N]) simp
  show "\<forall>k<length rains. rains ! k \<noteq> 0 \<or> Suc i \<le> k \<or> k \<in> set (dry_days ?st) \<longrightarrow> result ?st ! k = - 1"
  proof (intro allI impI)
    fix k assume k: "k < length rains" "rains ! k \<noteq> 0 \<or> Suc i \<le> k \<or> k \<in> set (dry_days ?st)"
    have k2: "rains ! k \<noteq> 0 \<or> Suc i \<le> k \<or> k \<in> set (dry_days st) - {p0}"
      using k(2) pool'(2) by simp
    have ne: "k \<noteq> p0"
    proof
      assume "k = p0"
      then show False using k2 p0i p0z by simp
    qed
    have "rains ! k \<noteq> 0 \<or> i \<le> k \<or> k \<in> set (dry_days st)" using k2 by auto
    then have "result st ! k = - 1" using R k(1) by blast
    then show "result ?st ! k = - 1" using other[OF ne] by simp
  qed
  show "\<forall>p<Suc i. rains ! p = 0 \<and> p \<notin> set (dry_days ?st) \<longrightarrow>
        (\<exists>d j. d < p \<and> p < j \<and> j < Suc i \<and> rains ! d = rains ! j \<and> rains ! j \<noteq> 0 \<and>
           (\<forall>k. d < k \<and> k < j \<longrightarrow> rains ! k \<noteq> rains ! j) \<and>
           result ?st ! p = rains ! j)"
  proof (intro allI impI)
    fix p assume a: "p < Suc i" "rains ! p = 0 \<and> p \<notin> set (dry_days ?st)"
    show "\<exists>d j. d < p \<and> p < j \<and> j < Suc i \<and> rains ! d = rains ! j \<and> rains ! j \<noteq> 0 \<and>
           (\<forall>k. d < k \<and> k < j \<longrightarrow> rains ! k \<noteq> rains ! j) \<and>
           result ?st ! p = rains ! j"
    proof (cases "p = p0")
      case True
      have "d0 < p \<and> p < i \<and> i < Suc i \<and> rains ! d0 = rains ! i \<and> rains ! i \<noteq> 0 \<and>
           (\<forall>k. d0 < k \<and> k < i \<longrightarrow> rains ! k \<noteq> rains ! i) \<and>
           result ?st ! p = rains ! i" using True p0(2) p0i d0(2,3) nz at_p0 by simp
      then show ?thesis by blast
    next
      case False
      have "p < i" using a nz by (cases "p = i") auto
      moreover have "rains ! p = 0 \<and> p \<notin> set (dry_days st)" using a False pool'(2) by simp
      ultimately obtain d j where "d < p \<and> p < j \<and> j < i \<and> rains ! d = rains ! j \<and> rains ! j \<noteq> 0 \<and>
           (\<forall>k. d < k \<and> k < j \<longrightarrow> rains ! k \<noteq> rains ! j) \<and>
           result st ! p = rains ! j" using U by blast
      then have "d < p \<and> p < j \<and> j < Suc i \<and> rains ! d = rains ! j \<and> rains ! j \<noteq> 0 \<and>
           (\<forall>k. d < k \<and> k < j \<longrightarrow> rains ! k \<noteq> rains ! j) \<and>
           result ?st ! p = rains ! j" using other[OF False] by simp
      then show ?thesis by blast
    qed
  qed
  show "\<forall>j<Suc i. \<forall>d<j. rains ! d = rains ! j \<and> rains ! j \<noteq> 0 \<longrightarrow>
        (\<exists>p. d < p \<and> p < j \<and> rains ! p = 0 \<and> p \<notin> set (dry_days ?st) \<and>
           result ?st ! p = rains ! j)"
  proof (intro allI impI)
    fix j d assume a: "j < Suc i" "d < j" "rains ! d = rains ! j \<and> rains ! j \<noteq> 0"
    show "\<exists>p. d < p \<and> p < j \<and> rains ! p = 0 \<and> p \<notin> set (dry_days ?st) \<and>
           result ?st ! p = rains ! j"
    proof (cases "j = i")
      case True
      have "d < i" "rains ! d = rains ! i" using a True by simp_all
      then have "\<not> d0 < d" using d0(3) by blast
      then have "d < p0" using p0(2) by simp
      moreover have "p0 \<notin> set (dry_days ?st)" using pool'(2) by simp
      ultimately have "d < p0 \<and> p0 < j \<and> rains ! p0 = 0 \<and> p0 \<notin> set (dry_days ?st) \<and>
           result ?st ! p0 = rains ! j" using True p0i p0z at_p0 by simp
      then show ?thesis by blast
    next
      case False
      then have "j < i" using a(1) by simp
      with W a obtain p where p: "d < p \<and> p < j \<and> rains ! p = 0 \<and> p \<notin> set (dry_days st) \<and>
           result st ! p = rains ! j" by blast
      then have ne: "p \<noteq> p0" using p0(1) by auto
      have "p \<notin> set (dry_days ?st)" using p pool'(2) by simp
      then have "d < p \<and> p < j \<and> rains ! p = 0 \<and> p \<notin> set (dry_days ?st) \<and>
           result ?st ! p = rains ! j" using p other[OF ne] by simp
      then show ?thesis by blast
    qed
  qed
qed

section \<open>The whole scan\<close>

lemma scan_append:
  "scan rains (xs @ ys) st =
     (case scan rains xs st of Continue st' \<Rightarrow> scan rains ys st' | stop \<Rightarrow> stop)"
  by (induction xs arbitrary: st) (auto split: outcome.splits)

lemma scan_single: "scan rains [i] st = day_step rains i st"
  by (simp split: outcome.splits)

lemma scan_upt_Suc:
  "scan rains [0..<Suc i] st =
     (case scan rains [0..<i] st of Continue st' \<Rightarrow> day_step rains i st' | stop \<Rightarrow> stop)"
proof -
  have "[0..<Suc i] = [0..<i] @ [i]" by simp
  then have "scan rains [0..<Suc i] st =
     (case scan rains [0..<i] st of Continue st' \<Rightarrow> scan rains [i] st' | stop \<Rightarrow> stop)"
    by (simp only: scan_append)
  then show ?thesis
    by (cases "scan rains [0..<i] st") (simp_all only: scan_single outcome.case)
qed

lemma scan_upt_split:
  assumes "i \<le> n"
  shows "scan rains [0..<n] st =
     (case scan rains [0..<i] st of Continue st' \<Rightarrow> scan rains [i..<n] st' | stop \<Rightarrow> stop)"
proof -
  have "[0..<n] = [0..<i] @ [i..<n]" using assms by (metis le0 upt_add_eq_append le_Suc_ex)
  then show ?thesis by (simp only: scan_append)
qed

lemma scan_prefix_Continue:
  assumes "scan rains [0..<Suc i] st = Continue st'"
  obtains st0 where "scan rains [0..<i] st = Continue st0" "day_step rains i st0 = Continue st'"
  using assms unfolding scan_upt_Suc by (cases "scan rains [0..<i] st") simp_all

lemma day_step_preserves:
  assumes inv: "scan_inv rains i st" and i: "i < length rains"
    and step: "day_step rains i st = Continue st'"
  shows "scan_inv rains (Suc i) st'"
proof -
  have b: "length (result st) = length rains" "sorted_wrt (<) (dry_days st)"
    "\<forall>p\<in>set (dry_days st). p < length rains"
    using scan_inv_basic[OF inv] i by simp_all
  from b i show ?thesis
  proof (cases rule: day_step_cases)
    case dry
    then show ?thesis using scan_inv_dry[OF inv i] step by simp
  next
    case first
    then show ?thesis using scan_inv_first[OF inv i] step by simp
  next
    case (stop d)
    then show ?thesis using step by simp
  next
    case (refill d p pool')
    have "scan_inv rains (Suc i) \<lparr>result = (result st)[p := rains ! i],
         full_lakes = (full_lakes st)(rains ! i \<mapsto> i), dry_days = pool'\<rparr>"
      using inv i refill(1,2,3,4,6,7) by (rule scan_inv_refill)
    then show ?thesis using refill(8) step by simp
  qed
qed

lemma scan_reaches_inv:
  "i \<le> length rains \<Longrightarrow> scan rains [0..<i] (init_state rains) = Continue st \<Longrightarrow>
     scan_inv rains i st"
proof (induction i arbitrary: st)
  case 0
  then show ?case using scan_inv_init[of rains] by simp
next
  case (Suc i)
  from Suc.prems(2) obtain st0 where st0: "scan rains [0..<i] (init_state rains) = Continue st0"
    "day_step rains i st0 = Continue st" by (rule scan_prefix_Continue)
  have "scan_inv rains i st0" using Suc.IH[OF _ st0(1)] Suc.prems(1) by simp
  then show ?case using st0(2) Suc.prems(1) by (intro day_step_preserves[of rains i st0]) simp_all
qed

lemma day_step_no_raise:
  assumes inv: "scan_inv rains i st" and i: "i < length rains"
  shows "day_step rains i st \<noteq> Raise e"
proof -
  have b: "length (result st) = length rains" "sorted_wrt (<) (dry_days st)"
    "\<forall>p\<in>set (dry_days st). p < length rains"
    using scan_inv_basic[OF inv] i by simp_all
  from b i show ?thesis by (cases rule: day_step_cases) simp_all
qed

lemma scan_no_raise:
  "i \<le> length rains \<Longrightarrow> scan rains [0..<i] (init_state rains) \<noteq> Raise e"
proof (induction i arbitrary: e)
  case 0
  then show ?case by simp
next
  case (Suc i)
  show ?case
  proof (cases "scan rains [0..<i] (init_state rains)")
    case (Raise e')
    then show ?thesis using Suc.IH[of e'] Suc.prems by simp
  next
    case (Return v)
    then show ?thesis by (simp add: scan_upt_Suc del: upt_Suc)
  next
    case (Continue st)
    then have "scan_inv rains i st" using scan_reaches_inv[of i rains st] Suc.prems by simp
    then have "day_step rains i st \<noteq> Raise e" using Suc.prems by (intro day_step_no_raise) simp_all
    then show ?thesis using Continue by (simp add: scan_upt_Suc del: upt_Suc)
  qed
qed

lemma rescue_Return: "rescue lake st = Return v \<Longrightarrow> v = []"
  by (simp add: rescue_def split: sum.splits if_splits)

lemma day_step_Return: "day_step rains i st = Return v \<Longrightarrow> v = []"
  by (auto simp: day_step_def dest: rescue_Return split: sum.splits if_splits outcome.splits)

lemma scan_Return: "scan rains days st = Return v \<Longrightarrow> v = []"
  by (induction days arbitrary: st) (auto dest: day_step_Return split: outcome.splits)

lemma fill_remaining_spec:
  "\<forall>d\<in>set days. d < length res \<Longrightarrow>
     \<exists>plan. fill_remaining days res = Inr plan \<and> length plan = length res \<and>
       (\<forall>k<length res. plan ! k = (if k \<in> set days then 1 else res ! k))"
proof (induction days arbitrary: res)
  case Nil
  then show ?case by simp
next
  case (Cons d days)
  have d: "d < length res" using Cons.prems by simp
  have "\<forall>x\<in>set days. x < length (res[d := 1])" using Cons.prems by simp
  from Cons.IH[OF this] obtain plan where p: "fill_remaining days (res[d := 1]) = Inr plan"
    "length plan = length res"
    "\<forall>k<length res. plan ! k = (if k \<in> set days then 1 else res[d := 1] ! k)" by auto
  have "\<forall>k<length res. plan ! k = (if k \<in> set (d # days) then 1 else res ! k)"
  proof (intro allI impI)
    fix k assume k: "k < length res"
    show "plan ! k = (if k \<in> set (d # days) then 1 else res ! k)"
      using p(3) k d by (cases "k = d") auto
  qed
  then show ?case using p(1,2) d by (simp add: list_set_def)
qed

section \<open>The returned plan\<close>

lemma replay_ok:
  assumes "\<forall>j<length days. fst (days ! j) \<noteq> 0 \<longrightarrow>
     (fst (days ! j) \<in> F \<longrightarrow> (\<exists>p<j. days ! p = (0, fst (days ! j)))) \<and>
     (\<forall>d<j. fst (days ! d) = fst (days ! j) \<longrightarrow>
        (\<exists>p. d < p \<and> p < j \<and> days ! p = (0, fst (days ! j))))"
  shows "replay F days"
  using assms
proof (induction days arbitrary: F)
  case Nil
  then show ?case by simp
next
  case (Cons day rest)
  obtain r a where day: "day = (r, a)" by (cases day)
  have H1: "\<And>j. j < length rest \<Longrightarrow> fst (rest ! j) \<noteq> 0 \<Longrightarrow> fst (rest ! j) \<in> F \<Longrightarrow>
      \<exists>p<Suc j. (day # rest) ! p = (0, fst (rest ! j))"
  proof -
    fix j assume "j < length rest" "fst (rest ! j) \<noteq> 0" "fst (rest ! j) \<in> F"
    then show "\<exists>p<Suc j. (day # rest) ! p = (0, fst (rest ! j))"
      using Cons.prems[rule_format, of "Suc j"] by simp
  qed
  have H2: "\<And>j d. j < length rest \<Longrightarrow> fst (rest ! j) \<noteq> 0 \<Longrightarrow> d < Suc j \<Longrightarrow>
      fst ((day # rest) ! d) = fst (rest ! j) \<Longrightarrow>
      \<exists>p. d < p \<and> p < Suc j \<and> (day # rest) ! p = (0, fst (rest ! j))"
  proof -
    fix j d assume "j < length rest" "fst (rest ! j) \<noteq> 0" "d < Suc j"
      "fst ((day # rest) ! d) = fst (rest ! j)"
    then show "\<exists>p. d < p \<and> p < Suc j \<and> (day # rest) ! p = (0, fst (rest ! j))"
      using Cons.prems[rule_format, of "Suc j"] by simp
  qed
  have later: "\<And>j d. j < length rest \<Longrightarrow> fst (rest ! j) \<noteq> 0 \<Longrightarrow> d < j \<Longrightarrow>
      fst (rest ! d) = fst (rest ! j) \<Longrightarrow>
      \<exists>p. d < p \<and> p < j \<and> rest ! p = (0, fst (rest ! j))"
  proof -
    fix j d assume a: "j < length rest" "fst (rest ! j) \<noteq> 0" "d < j" "fst (rest ! d) = fst (rest ! j)"
    then obtain p where p: "Suc d < p" "p < Suc j" "(day # rest) ! p = (0, fst (rest ! j))"
      using H2[of j "Suc d"] by auto
    then obtain p' where "p = Suc p'" by (cases p) auto
    then have "d < p' \<and> p' < j \<and> rest ! p' = (0, fst (rest ! j))" using p by simp
    then show "\<exists>p. d < p \<and> p < j \<and> rest ! p = (0, fst (rest ! j))" by blast
  qed
  show ?case
  proof (cases "r = 0")
    case True
    have "replay (F - {a}) rest"
    proof (rule Cons.IH, intro allI impI conjI)
      fix j assume j: "j < length rest" "fst (rest ! j) \<noteq> 0" "fst (rest ! j) \<in> F - {a}"
      then obtain p where p: "p < Suc j" "(day # rest) ! p = (0, fst (rest ! j))"
        using H1[of j] by auto
      have "p \<noteq> 0" using p(2) j(3) day by (cases p) auto
      then obtain p' where "p = Suc p'" by (cases p) auto
      then have "p' < j \<and> rest ! p' = (0, fst (rest ! j))" using p by simp
      then show "\<exists>p<j. rest ! p = (0, fst (rest ! j))" by blast
    next
      fix j d assume "j < length rest" "fst (rest ! j) \<noteq> 0" "d < j" "fst (rest ! d) = fst (rest ! j)"
      then show "\<exists>p. d < p \<and> p < j \<and> rest ! p = (0, fst (rest ! j))" by (rule later)
    qed
    then show ?thesis using True day by simp
  next
    case False
    have nf: "r \<notin> F" using Cons.prems[rule_format, of 0] False day by simp
    have "replay (insert r F) rest"
    proof (rule Cons.IH, intro allI impI conjI)
      fix j assume j: "j < length rest" "fst (rest ! j) \<noteq> 0" "fst (rest ! j) \<in> insert r F"
      show "\<exists>p<j. rest ! p = (0, fst (rest ! j))"
      proof (cases "fst (rest ! j) = r")
        case True
        then obtain p where p: "0 < p" "p < Suc j" "(day # rest) ! p = (0, fst (rest ! j))"
          using H2[of j 0] j(1,2) day by auto
        then obtain p' where "p = Suc p'" by (cases p) auto
        then have "p' < j \<and> rest ! p' = (0, fst (rest ! j))" using p by simp
        then show ?thesis by blast
      next
        case ne: False
        then have "fst (rest ! j) \<in> F" using j(3) by simp
        then obtain p where p: "p < Suc j" "(day # rest) ! p = (0, fst (rest ! j))"
          using H1[of j] j(1,2) by auto
        have "p \<noteq> 0" using p(2) False day by (cases p) auto
        then obtain p' where "p = Suc p'" by (cases p) auto
        then have "p' < j \<and> rest ! p' = (0, fst (rest ! j))" using p by simp
        then show ?thesis by blast
      qed
    next
      fix j d assume "j < length rest" "fst (rest ! j) \<noteq> 0" "d < j" "fst (rest ! d) = fst (rest ! j)"
      then show "\<exists>p. d < p \<and> p < j \<and> rest ! p = (0, fst (rest ! j))" by (rule later)
    qed
    then show ?thesis using False nf day by simp
  qed
qed

lemma avoidFlood_total: "\<exists>plan. avoidFlood rains = Inr plan"
proof (cases "scan rains [0..<length rains] (init_state rains)")
  case (Raise e)
  then show ?thesis using scan_no_raise[of "length rains" rains e] by simp
next
  case (Return v)
  then show ?thesis by (simp add: avoidFlood_def)
next
  case (Continue st)
  then have "scan_inv rains (length rains) st" using scan_reaches_inv[of "length rains" rains st] by simp
  then have "\<forall>d\<in>set (dry_days st). d < length (result st)"
    using scan_inv_basic[of rains "length rains" st] by simp
  then obtain plan where "fill_remaining (dry_days st) (result st) = Inr plan"
    using fill_remaining_spec[of "dry_days st" "result st"] by blast
  then show ?thesis using Continue by (simp add: avoidFlood_def)
qed

lemma avoidFlood_feasible:
  assumes "avoidFlood rains = Inr plan" "plan \<noteq> []"
  obtains st where "scan rains [0..<length rains] (init_state rains) = Continue st"
    "scan_inv rains (length rains) st" "length plan = length rains"
    "\<forall>k<length rains. plan ! k = (if k \<in> set (dry_days st) then 1 else result st ! k)"
proof (cases "scan rains [0..<length rains] (init_state rains)")
  case (Raise e)
  then show ?thesis using scan_no_raise[of "length rains" rains e] by simp
next
  case (Return v)
  then have "v = []" by (rule scan_Return)
  then show ?thesis using Return assms by (simp add: avoidFlood_def)
next
  case (Continue st)
  then have inv: "scan_inv rains (length rains) st"
    using scan_reaches_inv[of "length rains" rains st] by simp
  then have b: "length (result st) = length rains" "\<forall>d\<in>set (dry_days st). d < length (result st)"
    using scan_inv_basic[of rains "length rains" st] by simp_all
  obtain plan' where p: "fill_remaining (dry_days st) (result st) = Inr plan'"
    "length plan' = length (result st)"
    "\<forall>k<length (result st). plan' ! k = (if k \<in> set (dry_days st) then 1 else result st ! k)"
    using fill_remaining_spec[OF b(2)] by blast
  have "plan' = plan" using p(1) Continue assms(1) by (simp add: avoidFlood_def)
  then show ?thesis using that[OF Continue inv] p(2,3) b(1) by simp
qed

section \<open>The examples of the specification\<close>

text \<open>
  C2, as the code behaves: on \<open>[1, 2, 1]\<close> the method returns the empty list, on
  \<open>[1, 2, 3, 4]\<close> it returns \<open>[-1, -1, -1, -1]\<close>, and on \<open>[1, 2, 0, 1, 2]\<close> it
  returns the empty list as well: the single dry day is spent on lake 1, and the rain of
  day 4 finds lake 2 full with no dry day left.
\<close>

theorem examples_as_computed:
  "avoidFlood [1, 2, 1] = Inr [] \<and>
   avoidFlood [1, 2, 3, 4] = Inr [- 1, - 1, - 1, - 1] \<and>
   avoidFlood [1, 2, 0, 1, 2] = Inr []"
  by (simp add: avoidFlood_eval)

text \<open>
  C2 as stated fails in its third example: the method does not return the plan with
  lake 1 at index 2 and \<open>-1\<close> elsewhere on \<open>[1, 2, 0, 1, 2]\<close>.
\<close>

theorem example_three_counterexample:
  "avoidFlood [1, 2, 0, 1, 2] \<noteq> Inr [- 1, - 1, 1, - 1, - 1]"
  by (simp add: avoidFlood_eval)

text \<open>
  The input \<open>[1, 2, 0, 1, 2]\<close> has no flood-free plan at all: whatever the five entries
  of a plan are, the replay floods. The empty list is the right answer there.
\<close>

lemma example_three_has_no_plan: "\<not> never_floods [1, 2, 0, 1, 2] [a, b, c, d, e]"
  by (simp add: never_floods_def)

section \<open>The shape of a returned plan\<close>

text \<open>
  C5: whenever the method returns a non-empty list, that list has exactly the length of
  the rain schedule.
\<close>

theorem plan_length:
  "avoidFlood rains = Inr plan \<Longrightarrow> plan \<noteq> [] \<Longrightarrow> length plan = length rains"
  by (erule avoidFlood_feasible) simp_all

theorem plan_length_witness:
  "avoidFlood [1, 0, 2, 0, 2] = Inr [- 1, 1, - 1, 2, - 1] \<and>
   length [- 1, 1, - 1, 2, - 1 :: int] = length [1, 0, 2, 0, 2 :: int]"
  using plan_length[of "[1, 0, 2, 0, 2]" "[- 1, 1, - 1, 2, - 1]"]
  by (simp add: avoidFlood_eval)

text \<open>
  C6: whenever the method returns a non-empty list, the list holds \<open>-1\<close> at every index
  \<open>i\<close> of a rainy day, \<open>rains[i] > 0\<close>.
\<close>

theorem rainy_day_no_action:
  assumes "avoidFlood rains = Inr plan" "plan \<noteq> []" "i < length rains" "0 < rains ! i"
  shows "plan ! i = - 1"
proof -
  from assms(1,2) obtain st where inv: "scan_inv rains (length rains) st"
    and p: "\<forall>k<length rains. plan ! k = (if k \<in> set (dry_days st) then 1 else result st ! k)"
    by (rule avoidFlood_feasible)
  have "i \<notin> set (dry_days st)" using scan_invD(3)[OF inv] assms(4) by auto
  moreover have "result st ! i = - 1" using scan_invD(6)[OF inv] assms(3,4) by auto
  ultimately show ?thesis using p assms(3) by simp
qed

theorem rainy_day_no_action_witness:
  "avoidFlood [1, 0, 1] = Inr [- 1, 1, - 1] \<and> [- 1, 1, - 1 :: int] ! 2 = - 1"
  using rainy_day_no_action[of "[1, 0, 1]" "[- 1, 1, - 1]" 2]
  by (simp add: avoidFlood_eval)

text \<open>
  What a dry day holds in a returned plan, in terms of the pool the scan ends with: the
  placeholder 1 when the day is still in the pool, and otherwise the lake of two
  consecutive rains on one lake, one before the day and one after it.
\<close>

lemma dry_day_value:
  assumes "avoidFlood rains = Inr plan" "plan \<noteq> []"
    "scan rains [0..<length rains] (init_state rains) = Continue st"
    "i < length rains" "rains ! i = 0"
  shows "(i \<in> set (dry_days st) \<longrightarrow> plan ! i = 1) \<and>
     (i \<notin> set (dry_days st) \<longrightarrow>
        (\<exists>d j. d < i \<and> i < j \<and> j < length rains \<and> rains ! d = rains ! j \<and> rains ! j \<noteq> 0 \<and>
           (\<forall>k. d < k \<and> k < j \<longrightarrow> rains ! k \<noteq> rains ! j) \<and> plan ! i = rains ! j))"
proof -
  from assms(1,2) obtain st' where st': "scan rains [0..<length rains] (init_state rains) = Continue st'"
    and inv: "scan_inv rains (length rains) st'"
    and p: "\<forall>k<length rains. plan ! k = (if k \<in> set (dry_days st') then 1 else result st' ! k)"
    by (rule avoidFlood_feasible)
  have eq: "st' = st" using st' assms(3) by simp
  have one: "i \<in> set (dry_days st) \<longrightarrow> plan ! i = 1" using p assms(4) eq by simp
  have "i \<notin> set (dry_days st) \<longrightarrow>
        (\<exists>d j. d < i \<and> i < j \<and> j < length rains \<and> rains ! d = rains ! j \<and> rains ! j \<noteq> 0 \<and>
           (\<forall>k. d < k \<and> k < j \<longrightarrow> rains ! k \<noteq> rains ! j) \<and> plan ! i = rains ! j)"
  proof
    assume n: "i \<notin> set (dry_days st)"
    then have "plan ! i = result st ! i" using p assms(4) eq by simp
    moreover obtain d j where "d < i \<and> i < j \<and> j < length rains \<and> rains ! d = rains ! j \<and>
        rains ! j \<noteq> 0 \<and> (\<forall>k. d < k \<and> k < j \<longrightarrow> rains ! k \<noteq> rains ! j) \<and>
        result st ! i = rains ! j"
      using scan_invD(7)[OF inv] assms(4,5) n eq by blast
    ultimately have "d < i \<and> i < j \<and> j < length rains \<and> rains ! d = rains ! j \<and> rains ! j \<noteq> 0 \<and>
           (\<forall>k. d < k \<and> k < j \<longrightarrow> rains ! k \<noteq> rains ! j) \<and> plan ! i = rains ! j" by simp
    then show "\<exists>d j. d < i \<and> i < j \<and> j < length rains \<and> rains ! d = rains ! j \<and> rains ! j \<noteq> 0 \<and>
           (\<forall>k. d < k \<and> k < j \<longrightarrow> rains ! k \<noteq> rains ! j) \<and> plan ! i = rains ! j" by blast
  qed
  with one show ?thesis by blast
qed

text \<open>
  C7: on an input of non-negative integers (the input constraint of the specification),
  whenever the method returns a non-empty list, the value at every index \<open>i\<close> of a dry
  day, \<open>rains[i] == 0\<close>, is either \<open>-1\<close> or a positive lake id, and never 0.
\<close>

theorem dry_day_value_range:
  assumes "avoidFlood rains = Inr plan" "plan \<noteq> []" "\<forall>x\<in>set rains. 0 \<le> x"
    "i < length rains" "rains ! i = 0"
  shows "(plan ! i = - 1 \<or> 0 < plan ! i) \<and> plan ! i \<noteq> 0"
proof -
  from assms(1,2) obtain st where st: "scan rains [0..<length rains] (init_state rains) = Continue st"
    by (rule avoidFlood_feasible)
  note v = dry_day_value[OF assms(1,2) st assms(4,5)]
  have "0 < plan ! i"
  proof (cases "i \<in> set (dry_days st)")
    case True
    then show ?thesis using v by simp
  next
    case False
    then obtain j where j: "j < length rains" "rains ! j \<noteq> 0" "plan ! i = rains ! j"
      using v by blast
    then have "0 \<le> rains ! j" using assms(3) by simp
    then show ?thesis using j by simp
  qed
  then show ?thesis by simp
qed

theorem dry_day_value_range_witness:
  "avoidFlood [3, 0, 3, 0] = Inr [- 1, 3, - 1, 1] \<and>
   ([- 1, 3, - 1, 1 :: int] ! 1 = - 1 \<or> 0 < [- 1, 3, - 1, 1 :: int] ! 1) \<and>
   [- 1, 3, - 1, 1 :: int] ! 1 \<noteq> 0"
  using dry_day_value_range[of "[3, 0, 3, 0]" "[- 1, 3, - 1, 1]" 1]
  by (simp add: avoidFlood_eval)

text \<open>
  C10: on an input of non-negative integers, whenever the method returns a non-empty list,
  no dry day is left at \<open>-1\<close>: the value at every dry day is positive. It is exactly the
  placeholder 1 when the day was never taken from the pool (it is still in the pool when
  the scan ends), and otherwise it is the id of the lake the day was used for: a lake that
  received rain on a day \<open>d\<close> before it and again on a day \<open>j\<close> after it, with no rain on
  that lake between \<open>d\<close> and \<open>j\<close>.
\<close>

theorem dry_day_always_assigned:
  assumes "avoidFlood rains = Inr plan" "plan \<noteq> []" "\<forall>x\<in>set rains. 0 \<le> x"
    "state_before rains (length rains) = Continue st"
    "i < length rains" "rains ! i = 0"
  shows "0 < plan ! i \<and>
     (i \<in> set (dry_days st) \<longrightarrow> plan ! i = 1) \<and>
     (i \<notin> set (dry_days st) \<longrightarrow>
        (\<exists>d j. d < i \<and> i < j \<and> j < length rains \<and> rains ! d = rains ! j \<and> rains ! j \<noteq> 0 \<and>
           (\<forall>k. d < k \<and> k < j \<longrightarrow> rains ! k \<noteq> rains ! j) \<and> plan ! i = rains ! j))"
proof -
  have st: "scan rains [0..<length rains] (init_state rains) = Continue st"
    using assms(4) by (simp add: state_before_def)
  note v = dry_day_value[OF assms(1,2) st assms(5,6)]
  have "0 < plan ! i"
  proof (cases "i \<in> set (dry_days st)")
    case True
    then show ?thesis using v by simp
  next
    case False
    then obtain j where j: "j < length rains" "rains ! j \<noteq> 0" "plan ! i = rains ! j"
      using v by blast
    then have "0 \<le> rains ! j" using assms(3) by simp
    then show ?thesis using j by simp
  qed
  with v show ?thesis by blast
qed

theorem dry_day_always_assigned_witness:
  "avoidFlood [2, 0, 2, 0] = Inr [- 1, 2, - 1, 1] \<and>
   state_before [2, 0, 2, 0] (length [2, 0, 2, 0 :: int]) =
     Continue \<lparr>result = [- 1, 2, - 1, - 1], full_lakes = [2 \<mapsto> Suc (Suc 0)], dry_days = [3]\<rparr> \<and>
   0 < [- 1, 2, - 1, 1 :: int] ! 3 \<and> [- 1, 2, - 1, 1 :: int] ! 3 = 1"
  using dry_day_always_assigned[of "[2, 0, 2, 0]" "[- 1, 2, - 1, 1]"
      "\<lparr>result = [- 1, 2, - 1, - 1], full_lakes = [2 \<mapsto> Suc (Suc 0)], dry_days = [3]\<rparr>" 3]
  by (simp add: avoidFlood_eval)

text \<open>
  C1: whenever the method returns a non-empty plan, replaying the rain sequence while
  emptying, on each dry day, the lake named by the plan never floods a lake: no lake
  receives rain while it is full.
\<close>

theorem replay_never_floods:
  assumes "avoidFlood rains = Inr plan" "plan \<noteq> []"
  shows "never_floods rains plan"
proof -
  from assms obtain st where inv: "scan_inv rains (length rains) st"
    and len: "length plan = length rains"
    and p: "\<forall>k<length rains. plan ! k = (if k \<in> set (dry_days st) then 1 else result st ! k)"
    by (rule avoidFlood_feasible)
  note W = scan_invD(8)[OF inv]
  have nth: "\<And>k. k < length rains \<Longrightarrow> zip rains plan ! k = (rains ! k, plan ! k)"
    using len by simp
  have "replay {} (zip rains plan)"
  proof (rule replay_ok, intro allI impI conjI)
    fix j assume "fst (zip rains plan ! j) \<in> {}"
    then show "\<exists>p<j. zip rains plan ! p = (0, fst (zip rains plan ! j))" by simp
  next
    fix j d assume a: "j < length (zip rains plan)" "fst (zip rains plan ! j) \<noteq> 0" "d < j"
      "fst (zip rains plan ! d) = fst (zip rains plan ! j)"
    have j: "j < length rains" using a(1) by simp
    then have d: "d < length rains" using a(3) by simp
    have "rains ! d = rains ! j" "rains ! j \<noteq> 0" using a(2,4) nth[OF j] nth[OF d] by simp_all
    then obtain q where q: "d < q" "q < j" "rains ! q = 0" "q \<notin> set (dry_days st)"
      "result st ! q = rains ! j" using W j a(3) by blast
    have "q < length rains" using q(2) j by simp
    then have "zip rains plan ! q = (0, rains ! j)" using q(3,4,5) p nth[of q] by simp
    then have "d < q \<and> q < j \<and> zip rains plan ! q = (0, fst (zip rains plan ! j))"
      using q(1,2) nth[OF j] by simp
    then show "\<exists>p. d < p \<and> p < j \<and> zip rains plan ! p = (0, fst (zip rains plan ! j))" by blast
  qed
  then show ?thesis by (simp add: never_floods_def)
qed

theorem replay_never_floods_witness:
  "avoidFlood [1, 0, 2, 0, 2, 1] = Inr [- 1, 1, - 1, 2, - 1, - 1] \<and>
   never_floods [1, 0, 2, 0, 2, 1] [- 1, 1, - 1, 2, - 1, - 1]"
  using replay_never_floods[of "[1, 0, 2, 0, 2, 1]" "[- 1, 1, - 1, 2, - 1, - 1]"]
  by (simp add: avoidFlood_eval)

section \<open>Infeasibility and the pool of dry days\<close>

lemma state_before_inv:
  "state_before rains i = Continue st \<Longrightarrow> i \<le> length rains \<Longrightarrow> scan_inv rains i st"
  by (simp add: state_before_def scan_reaches_inv)

lemma scan_Return_first:
  "scan rains [0..<m] st0 = Return v \<Longrightarrow>
     \<exists>i st. i < m \<and> scan rains [0..<i] st0 = Continue st \<and> day_step rains i st = Return v"
proof (induction m)
  case 0
  then show ?case by simp
next
  case (Suc m)
  show ?case
  proof (cases "scan rains [0..<m] st0")
    case (Raise e)
    then show ?thesis using Suc.prems by (simp add: scan_upt_Suc del: upt_Suc)
  next
    case (Return w)
    then have "w = v" using Suc.prems by (simp add: scan_upt_Suc del: upt_Suc)
    then obtain i st where "i < m \<and> scan rains [0..<i] st0 = Continue st \<and> day_step rains i st = Return v"
      using Suc.IH Return by blast
    then have "i < Suc m \<and> scan rains [0..<i] st0 = Continue st \<and> day_step rains i st = Return v"
      by simp
    then show ?thesis by blast
  next
    case (Continue st)
    then have "day_step rains m st = Return v" using Suc.prems by (simp add: scan_upt_Suc del: upt_Suc)
    then have "m < Suc m \<and> scan rains [0..<m] st0 = Continue st \<and> day_step rains m st = Return v"
      using Continue by simp
    then show ?thesis by blast
  qed
qed

lemma infeasible_day:
  assumes "state_before rains i = Continue st" "i < length rains" "rains ! i \<noteq> 0"
    "full_lakes st (rains ! i) = Some d" "\<forall>p\<in>set (dry_days st). p \<le> d"
  shows "day_step rains i st = Return []"
proof -
  have inv: "scan_inv rains i st" using assms(1,2) by (intro state_before_inv) simp_all
  have "rescue (rains ! i) st = Return []"
    using scan_invD(2)[OF inv] assms(4,5) by (rule rescue_infeasible)
  then show ?thesis using assms(2,3,4) by (simp add: day_step_def list_get_def)
qed

lemma infeasible_return:
  assumes "state_before rains i = Continue st" "i < length rains"
    "day_step rains i st = Return v"
  shows "avoidFlood rains = Inr v"
proof -
  have "[i..<length rains] = i # [Suc i..<length rains]" using assms(2) by (rule upt_conv_Cons)
  then have "scan rains [i..<length rains] st = Return v" using assms(3) by simp
  moreover have "scan rains [0..<length rains] (init_state rains) =
     (case scan rains [0..<i] (init_state rains) of Continue st' \<Rightarrow> scan rains [i..<length rains] st'
      | stop \<Rightarrow> stop)" using assms(2) by (intro scan_upt_split) simp
  ultimately have "scan rains [0..<length rains] (init_state rains) = Return v"
    using assms(1) by (simp add: state_before_def)
  then show ?thesis by (simp add: avoidFlood_def)
qed

lemma infeasible_only:
  assumes "rains \<noteq> []" "avoidFlood rains = Inr []"
  shows "\<exists>i st d. i < length rains \<and> state_before rains i = Continue st \<and> rains ! i \<noteq> 0 \<and>
     full_lakes st (rains ! i) = Some d \<and> (\<forall>p\<in>set (dry_days st). p \<le> d)"
proof (cases "scan rains [0..<length rains] (init_state rains)")
  case (Raise e)
  then show ?thesis using scan_no_raise[of "length rains" rains e] by simp
next
  case (Continue st)
  then have inv: "scan_inv rains (length rains) st"
    using scan_reaches_inv[of "length rains" rains st] by simp
  then have "\<forall>d\<in>set (dry_days st). d < length (result st)"
    using scan_inv_basic[of rains "length rains" st] by simp
  then obtain plan where "fill_remaining (dry_days st) (result st) = Inr plan"
    "length plan = length (result st)"
    using fill_remaining_spec[of "dry_days st" "result st"] by blast
  then have "avoidFlood rains = Inr plan" "length plan = length rains"
    using Continue scan_invD(1)[OF inv] by (simp_all add: avoidFlood_def)
  then show ?thesis using assms by auto
next
  case (Return v)
  then obtain i st where i: "i < length rains" "scan rains [0..<i] (init_state rains) = Continue st"
    "day_step rains i st = Return v" using scan_Return_first by blast
  have inv: "scan_inv rains i st" using scan_reaches_inv[of i rains st] i(1,2) by simp
  have b: "length (result st) = length rains" "sorted_wrt (<) (dry_days st)"
    "\<forall>p\<in>set (dry_days st). p < length rains"
    using scan_inv_basic[OF inv] i(1) by simp_all
  from b i(1) show ?thesis
  proof (cases rule: day_step_cases)
    case (stop d)
    then have "i < length rains \<and> state_before rains i = Continue st \<and> rains ! i \<noteq> 0 \<and>
     full_lakes st (rains ! i) = Some d \<and> (\<forall>p\<in>set (dry_days st). p \<le> d)"
      using i(1,2) by (simp add: state_before_def)
    then show ?thesis by blast
  qed (use i(3) in simp_all)
qed

text \<open>
  C3: infeasibility is the sole failure mode. The method never raises: on every input it
  returns a list. When the scan reaches a rainy day \<open>i\<close> whose lake is full since day \<open>d\<close>
  and no day of the pool is later than \<open>d\<close>, the loop stops at that day with the empty
  list, whatever days would follow, and the method returns the empty list. And a
  non-empty input yields the empty list only in that way.
\<close>

theorem infeasible_sole_failure:
  "(\<exists>plan. avoidFlood rains = Inr plan) \<and>
   (i < length rains \<and> state_before rains i = Continue st \<and> rains ! i \<noteq> 0 \<and>
    full_lakes st (rains ! i) = Some d \<and> (\<forall>p\<in>set (dry_days st). p \<le> d) \<longrightarrow>
      (\<forall>later. scan rains (i # later) st = Return []) \<and> avoidFlood rains = Inr []) \<and>
   (rains \<noteq> [] \<and> avoidFlood rains = Inr [] \<longrightarrow>
      (\<exists>i st d. i < length rains \<and> state_before rains i = Continue st \<and> rains ! i \<noteq> 0 \<and>
         full_lakes st (rains ! i) = Some d \<and> (\<forall>p\<in>set (dry_days st). p \<le> d)))"
proof (intro conjI impI)
  show "\<exists>plan. avoidFlood rains = Inr plan" by (rule avoidFlood_total)
next
  assume a: "i < length rains \<and> state_before rains i = Continue st \<and> rains ! i \<noteq> 0 \<and>
    full_lakes st (rains ! i) = Some d \<and> (\<forall>p\<in>set (dry_days st). p \<le> d)"
  then have r: "day_step rains i st = Return []" using infeasible_day[of rains i st d] by blast
  then show "\<forall>later. scan rains (i # later) st = Return []" by simp
  show "avoidFlood rains = Inr []" using a r infeasible_return[of rains i st "[]"] by blast
next
  assume "rains \<noteq> [] \<and> avoidFlood rains = Inr []"
  then show "\<exists>i st d. i < length rains \<and> state_before rains i = Continue st \<and> rains ! i \<noteq> 0 \<and>
         full_lakes st (rains ! i) = Some d \<and> (\<forall>p\<in>set (dry_days st). p \<le> d)"
    using infeasible_only by blast
qed

theorem infeasible_sole_failure_witness:
  "state_before [1, 0, 1, 1, 5] 3 =
     Continue \<lparr>result = [- 1, 1, - 1, - 1, - 1], full_lakes = [1 \<mapsto> Suc (Suc 0)], dry_days = []\<rparr> \<and>
   scan [1, 0, 1, 1, 5] [3, 4]
     \<lparr>result = [- 1, 1, - 1, - 1, - 1], full_lakes = [1 \<mapsto> Suc (Suc 0)], dry_days = []\<rparr> = Return [] \<and>
   avoidFlood [1, 0, 1, 1, 5] = Inr []"
  using infeasible_sole_failure[of "[1, 0, 1, 1, 5]" 3
      "\<lparr>result = [- 1, 1, - 1, - 1, - 1], full_lakes = [1 \<mapsto> Suc (Suc 0)], dry_days = []\<rparr>" 2]
  by (simp add: avoidFlood_eval eval_nat_numeral)

text \<open>
  C9: on the empty input the method returns the empty list without taking the
  infeasible exit, and every input that takes the infeasible exit returns that same
  value: the return value alone does not tell the two outcomes apart.
\<close>

theorem empty_input_ambiguous:
  "avoidFlood [] = Inr [] \<and> \<not> infeasible_exit [] \<and>
   (infeasible_exit rains \<longrightarrow> avoidFlood rains = avoidFlood [])"
proof -
  have e: "avoidFlood [] = Inr []" by (simp add: avoidFlood_def init_state_def)
  have n: "\<not> infeasible_exit []" by (simp add: infeasible_exit_def)
  have "infeasible_exit rains \<longrightarrow> avoidFlood rains = Inr []"
  proof
    assume "infeasible_exit rains"
    then obtain v where v: "scan rains [0..<length rains] (init_state rains) = Return v"
      by (auto simp: infeasible_exit_def split: outcome.splits)
    then have "v = []" by (rule scan_Return)
    then show "avoidFlood rains = Inr []" using v by (simp add: avoidFlood_def)
  qed
  then show ?thesis using e n by simp
qed

theorem empty_input_ambiguous_witness:
  "infeasible_exit [1, 2, 1] \<and> avoidFlood [1, 2, 1] = avoidFlood []"
  using empty_input_ambiguous[of "[1, 2, 1]"]
  by (simp add: avoidFlood_eval)

text \<open>
  C4: whenever the scan reaches a rainy day \<open>i\<close> whose lake is full since day \<open>d\<close> and
  rescues it, the dry day that receives the lake is the smallest day of the current
  pool that is strictly greater than \<open>d\<close>; that day leaves the pool.
\<close>

theorem earliest_dry_day_chosen:
  assumes "i < length rains" "state_before rains i = Continue st" "rains ! i \<noteq> 0"
    "full_lakes st (rains ! i) = Some d" "day_step rains i st = Continue st'"
  shows "\<exists>p. p \<in> set (dry_days st) \<and> d < p \<and> p < i \<and>
           (\<forall>q\<in>set (dry_days st). d < q \<longrightarrow> p \<le> q) \<and>
           result st' = (result st)[p := rains ! i] \<and> result st' ! p = rains ! i \<and>
           set (dry_days st') = set (dry_days st) - {p}"
proof -
  have inv: "scan_inv rains i st" using assms(1,2) by (intro state_before_inv) simp_all
  have b: "length (result st) = length rains" "sorted_wrt (<) (dry_days st)"
    "\<forall>p\<in>set (dry_days st). p < length rains"
    using scan_inv_basic[OF inv] assms(1) by simp_all
  from b assms(1) show ?thesis
  proof (cases rule: day_step_cases)
    case (refill d' p pool')
    have d': "d' = d" using refill(2) assms(4) by simp
    have "p < i" using scan_invD(3)[OF inv] refill(3) by simp
    moreover have "st' = \<lparr>result = (result st)[p := rains ! i],
         full_lakes = (full_lakes st)(rains ! i \<mapsto> i), dry_days = pool'\<rparr>"
      using refill(8) assms(5) by simp
    moreover have "p < length (result st)" using b(1,3) refill(3) by simp
    ultimately have "p \<in> set (dry_days st) \<and> d < p \<and> p < i \<and>
           (\<forall>q\<in>set (dry_days st). d < q \<longrightarrow> p \<le> q) \<and>
           result st' = (result st)[p := rains ! i] \<and> result st' ! p = rains ! i \<and>
           set (dry_days st') = set (dry_days st) - {p}"
      using refill(3,4,5,7) d' by simp
    then show ?thesis by blast
  qed (use assms(3,4,5) in simp_all)
qed

theorem earliest_dry_day_chosen_witness:
  "state_before [1, 0, 0, 1] 3 =
     Continue \<lparr>result = [- 1, - 1, - 1, - 1], full_lakes = [1 \<mapsto> 0], dry_days = [1, 2]\<rparr> \<and>
   day_step [1, 0, 0, 1] 3
     \<lparr>result = [- 1, - 1, - 1, - 1], full_lakes = [1 \<mapsto> 0], dry_days = [1, 2]\<rparr> =
     Continue \<lparr>result = [- 1, 1, - 1, - 1], full_lakes = [1 \<mapsto> 3], dry_days = [2]\<rparr> \<and>
   (1 :: nat) \<in> set [1, 2] \<and> Min (set [1, 2 :: nat]) = 1 \<and>
   [- 1, 1, - 1, - 1 :: int] ! 1 = 1"
  using earliest_dry_day_chosen[of 3 "[1, 0, 0, 1]"
      "\<lparr>result = [- 1, - 1, - 1, - 1], full_lakes = [1 \<mapsto> 0], dry_days = [1, 2]\<rparr>" 0
      "\<lparr>result = [- 1, 1, - 1, - 1], full_lakes = [1 \<mapsto> 3], dry_days = [2]\<rparr>"]
  by (simp add: avoidFlood_eval eval_nat_numeral)

lemma day_step_stable:
  assumes inv: "scan_inv rains j st" and j: "j < length rains"
    and step: "day_step rains j st = Continue st'"
    and p: "p < j" "p \<notin> set (dry_days st)"
  shows "p \<notin> set (dry_days st') \<and> result st' ! p = result st ! p"
proof -
  have b: "length (result st) = length rains" "sorted_wrt (<) (dry_days st)"
    "\<forall>p\<in>set (dry_days st). p < length rains"
    using scan_inv_basic[OF inv] j by simp_all
  from b j show ?thesis
  proof (cases rule: day_step_cases)
    case dry
    then have "st' = st\<lparr>dry_days := dry_days st @ [j]\<rparr>" using step by simp
    then show ?thesis using p by simp
  next
    case first
    then have "st' = st\<lparr>full_lakes := (full_lakes st)(rains ! j \<mapsto> j)\<rparr>" using step by simp
    then show ?thesis using p by simp
  next
    case (stop d)
    then show ?thesis using step by simp
  next
    case (refill d q pool')
    have st': "st' = \<lparr>result = (result st)[q := rains ! j],
         full_lakes = (full_lakes st)(rains ! j \<mapsto> j), dry_days = pool'\<rparr>"
      using refill(8) step by simp
    have "p \<noteq> q" using refill(3) p(2) by auto
    then show ?thesis using st' refill(7) p(2) by simp
  qed
qed

lemma scan_stable:
  assumes "i \<le> j" "j \<le> length rains"
    "scan rains [0..<i] (init_state rains) = Continue st"
    "scan rains [0..<j] (init_state rains) = Continue st'"
    "p < i" "p \<notin> set (dry_days st)"
  shows "p \<notin> set (dry_days st') \<and> result st' ! p = result st ! p"
  using assms(1,2,4)
proof (induction j arbitrary: st')
  case 0
  then show ?case using assms(3,5) by simp
next
  case (Suc j)
  show ?case
  proof (cases "i = Suc j")
    case True
    then have "st' = st" using Suc.prems(3) assms(3) by simp
    then show ?thesis using assms(6) by simp
  next
    case False
    then have ij: "i \<le> j" using Suc.prems(1) by simp
    from Suc.prems(3) obtain st0 where st0: "scan rains [0..<j] (init_state rains) = Continue st0"
      "day_step rains j st0 = Continue st'" by (rule scan_prefix_Continue)
    have IH: "p \<notin> set (dry_days st0) \<and> result st0 ! p = result st ! p"
      using Suc.IH[OF ij _ st0(1)] Suc.prems(2) by simp
    have inv: "scan_inv rains j st0" using scan_reaches_inv[of j rains st0] st0(1) Suc.prems(2) by simp
    have "p \<notin> set (dry_days st') \<and> result st' ! p = result st0 ! p"
      using inv _ st0(2) _ conjunct1[OF IH]
    proof (rule day_step_stable)
      show "j < length rains" using Suc.prems(2) by simp
      show "p < j" using assms(5) ij by simp
    qed
    then show ?thesis using IH by simp
  qed
qed

text \<open>
  C8: in every state the scan reaches, the pool is strictly ascending and holds dry days
  that are already processed, and a dry day is appended at the end of the pool; a day
  that is not in the pool once it is processed (in particular a dry day taken from the
  pool) is in no later pool, and its entry in the plan is never written again, neither
  by the rest of the scan nor by the final filling of the remaining dry days.
\<close>

theorem pool_ascending_consumed_once:
  assumes "state_before rains i = Continue st" "i \<le> j" "j \<le> length rains"
    "state_before rains j = Continue st'"
  shows "sorted_wrt (<) (dry_days st) \<and>
     (\<forall>p\<in>set (dry_days st). p < i \<and> rains ! p = 0) \<and>
     (rains ! j = 0 \<and> j < length rains \<longrightarrow>
        day_step rains j st' = Continue (st'\<lparr>dry_days := dry_days st' @ [j]\<rparr>)) \<and>
     (\<forall>p<i. p \<notin> set (dry_days st) \<longrightarrow>
        p \<notin> set (dry_days st') \<and> result st' ! p = result st ! p \<and>
        (\<forall>plan. avoidFlood rains = Inr plan \<and> plan \<noteq> [] \<longrightarrow> plan ! p = result st ! p))"
proof (intro conjI allI impI)
  have i: "i \<le> length rains" using assms(2,3) by simp
  have inv: "scan_inv rains i st" using assms(1) i by (rule state_before_inv)
  show "sorted_wrt (<) (dry_days st)" using scan_invD(2)[OF inv] .
  show "\<forall>p\<in>set (dry_days st). p < i \<and> rains ! p = 0" using scan_invD(3)[OF inv] .
  have sc: "scan rains [0..<i] (init_state rains) = Continue st"
    "scan rains [0..<j] (init_state rains) = Continue st'"
    using assms(1,4) by (simp_all add: state_before_def)
  {
    assume "rains ! j = 0 \<and> j < length rains"
    then show "day_step rains j st' = Continue (st'\<lparr>dry_days := dry_days st' @ [j]\<rparr>)"
      by (simp add: day_step_def list_get_def)
  }
  fix p assume p: "p < i" "p \<notin> set (dry_days st)"
  show "p \<notin> set (dry_days st')" "result st' ! p = result st ! p"
    using scan_stable[OF assms(2,3) sc p] by simp_all
  fix plan assume "avoidFlood rains = Inr plan \<and> plan \<noteq> []"
  then have f: "avoidFlood rains = Inr plan" "plan \<noteq> []" by simp_all
  from f obtain stn where stn: "scan rains [0..<length rains] (init_state rains) = Continue stn"
    and pl: "\<forall>k<length rains. plan ! k = (if k \<in> set (dry_days stn) then 1 else result stn ! k)"
    by (rule avoidFlood_feasible)
  have "p \<notin> set (dry_days stn) \<and> result stn ! p = result st ! p"
    using scan_stable[OF i _ sc(1) stn p] by simp
  moreover have "p < length rains" using p(1) i by simp
  ultimately show "plan ! p = result st ! p" using pl by simp
qed

theorem pool_ascending_consumed_once_witness:
  "state_before [1, 0, 0, 1, 0] 4 =
     Continue \<lparr>result = [- 1, 1, - 1, - 1, - 1], full_lakes = [1 \<mapsto> 3], dry_days = [2]\<rparr> \<and>
   state_before [1, 0, 0, 1, 0] 5 =
     Continue \<lparr>result = [- 1, 1, - 1, - 1, - 1], full_lakes = [1 \<mapsto> 3], dry_days = [2, 4]\<rparr> \<and>
   avoidFlood [1, 0, 0, 1, 0] = Inr [- 1, 1, 1, - 1, 1] \<and>
   sorted_wrt (<) [2 :: nat] \<and> (1 :: nat) \<notin> set [2, 4] \<and>
   [- 1, 1, 1, - 1, 1 :: int] ! 1 = [- 1, 1, - 1, - 1, - 1] ! 1"
  using pool_ascending_consumed_once[of "[1, 0, 0, 1, 0]" 4
      "\<lparr>result = [- 1, 1, - 1, - 1, - 1], full_lakes = [1 \<mapsto> 3], dry_days = [2]\<rparr>" 5
      "\<lparr>result = [- 1, 1, - 1, - 1, - 1], full_lakes = [1 \<mapsto> 3], dry_days = [2, 4]\<rparr>"]
  by (simp add: avoidFlood_eval eval_nat_numeral)

end
